theory Spec2Isabelle
  imports Complex_Main
begin

section \<open>Numbers\<close>

text \<open>
  The program computes with JavaScript numbers. A finite number is modelled by the real
  it denotes and every arithmetic operation by the exact operation on reals, so the
  rounding of IEEE-754 doubles is not part of the model. The three non-finite values
  are kept apart, because \<^verbatim>\<open>video.duration\<close> can be \<^verbatim>\<open>NaN\<close> or
  \<^verbatim>\<open>Infinity\<close> and the sampler tests for them.
\<close>

datatype jsnum = NaN | PosInf | NegInf | Fin real

text \<open>\<^verbatim>\<open>x || 0\<close> on a number: \<^verbatim>\<open>NaN\<close> and zero are falsy, everything else is kept.\<close>

fun or_zero :: "jsnum \<Rightarrow> jsnum" where
  "or_zero NaN = Fin 0"
| "or_zero (Fin x) = (if x = 0 then Fin 0 else Fin x)"
| "or_zero PosInf = PosInf"
| "or_zero NegInf = NegInf"

text \<open>\<^verbatim>\<open>Math.round\<close> rounds to the nearest integer, a tie towards plus infinity.\<close>

definition js_round :: "real \<Rightarrow> int" where
  "js_round x = \<lfloor>x + 1 / 2\<rfloor>"

section \<open>Frame sampler: output dimensions\<close>

text \<open>
  The handler \<^verbatim>\<open>video.onloadedmetadata\<close> of \<^verbatim>\<open>extractFrames\<close>. The native
  dimensions \<^verbatim>\<open>videoWidth\<close> and \<^verbatim>\<open>videoHeight\<close> are unsigned integers; the result is
  the pair assigned to \<^verbatim>\<open>canvas.width\<close> and \<^verbatim>\<open>canvas.height\<close>.
\<close>

definition maxDim :: real where
  "maxDim = 1024"

definition onloadedmetadata :: "nat \<Rightarrow> nat \<Rightarrow> int \<times> int" where
  "onloadedmetadata videoWidth videoHeight =
     (let width = real videoWidth;
          height = real videoHeight;
          (width', height') =
            (if width > maxDim \<or> height > maxDim then
               (if width > height then (maxDim, (height / width) * maxDim)
                else ((width / height) * maxDim, maxDim))
             else (width, height))
      in (\<lfloor>width'\<rfloor>, \<lfloor>height'\<rfloor>))"

section \<open>Frame sampler: sampling window\<close>

text \<open>
  \<^verbatim>\<open>(Number.isFinite(duration) && duration > 0) ? duration : 3\<close>: only a finite
  number passes the first test, and the result is always finite.
\<close>

fun safeDuration :: "jsnum \<Rightarrow> real" where
  "safeDuration (Fin d) = (if d > 0 then d else 3)"
| "safeDuration NaN = 3"
| "safeDuration PosInf = 3"
| "safeDuration NegInf = 3"

text \<open>\<^verbatim>\<open>Math.min(safeDuration, 5)\<close>, for \<^verbatim>\<open>duration = video.duration || 0\<close>.\<close>

definition processDuration :: "jsnum \<Rightarrow> real" where
  "processDuration video_duration = min (safeDuration (or_zero video_duration)) 5"

section \<open>Frame sampler: waiting for a seek\<close>

text \<open>
  The promise awaited in each iteration. It is resolved by the callback of
  \<^verbatim>\<open>setTimeout(..., 200)\<close> or by the listener \<^verbatim>\<open>onSeeked\<close>, whichever the
  browser runs first; it has no way to reject. The browser's side is the time, in
  milliseconds after the request, at which it dispatches \<^verbatim>\<open>seeked\<close>, if ever.
\<close>

record wait =
  resolved :: bool
  timer :: bool
  listener :: bool

definition seekTimeout :: nat where
  "seekTimeout = 200"

definition start_wait :: wait where
  "start_wait = \<lparr>resolved = False, timer = True, listener = True\<rparr>"

definition onTimeout :: "wait \<Rightarrow> wait" where
  "onTimeout w = w\<lparr>resolved := True, timer := False\<rparr>"

definition onSeeked :: "wait \<Rightarrow> wait" where
  "onSeeked w = w\<lparr>timer := False, listener := False, resolved := True\<rparr>"

definition await_seek :: "nat option \<Rightarrow> wait \<times> nat" where
  "await_seek seeked_at =
     (case seeked_at of
        None \<Rightarrow> (onTimeout start_wait, seekTimeout)
      | Some t \<Rightarrow>
          (if t < seekTimeout then (onSeeked start_wait, t)
           else (onTimeout start_wait, seekTimeout)))"

section \<open>Frame sampler: the run\<close>

text \<open>
  What the browser does in one iteration of the loop: when it dispatches \<^verbatim>\<open>seeked\<close>,
  which picture the video element shows when it is drawn, whether \<^verbatim>\<open>toBlob\<close> passes a
  blob or \<^verbatim>\<open>null\<close>, and whether one of the calls throws.
\<close>

datatype stage = AtSeek | AtDraw | AtEncode | AtProgress

record iteration =
  seeked_at :: "nat option"
  picture :: nat
  blob :: bool
  raises :: "stage option"

record frame =
  image :: nat
  fwidth :: int
  fheight :: int

text \<open>
  The state the run works on: whether the video element is a child of the document
  body, whether the object URL of the file exists, how often \<^verbatim>\<open>removeChild\<close> and
  \<^verbatim>\<open>revokeObjectURL\<close> ran, the canvas, the values assigned to \<^verbatim>\<open>video.currentTime\<close>,
  the milliseconds spent waiting for seeks, the array \<^verbatim>\<open>frames\<close> and the arguments
  passed to \<^verbatim>\<open>onProgress\<close>.
\<close>

record sampler =
  in_body :: bool
  url_live :: bool
  removed :: nat
  revoked :: nat
  canvas_width :: int
  canvas_height :: int
  seeks :: "real list"
  waited :: nat
  frames :: "frame list"
  reports :: "int list"

definition cleanup :: "sampler \<Rightarrow> sampler" where
  "cleanup st =
     (let st1 = (if in_body st then st\<lparr>in_body := False, removed := removed st + 1\<rparr> else st)
      in st1\<lparr>url_live := False, revoked := revoked st1 + 1\<rparr>)"

definition progress :: "nat \<Rightarrow> nat \<Rightarrow> int" where
  "progress frameCount i = js_round ((real (i + 1) / real frameCount) * 100)"

definition iteration_body ::
  "iteration \<Rightarrow> bool \<Rightarrow> real \<Rightarrow> nat \<Rightarrow> nat \<Rightarrow> sampler \<Rightarrow> (stage \<times> sampler) + sampler" where
  "iteration_body e onProgress interval frameCount i st =
     (let time = real i * interval in
      if raises e = Some AtSeek then Inl (AtSeek, st)
      else
        let st1 = st\<lparr>seeks := seeks st @ [time]\<rparr>;
            st2 = st1\<lparr>waited := waited st1 + snd (await_seek (seeked_at e))\<rparr>
        in
          if raises e = Some AtDraw then Inl (AtDraw, st2)
          else if raises e = Some AtEncode then Inl (AtEncode, st2)
          else
            let st3 =
              (if blob e then
                 st2\<lparr>frames := frames st2 @
                   [\<lparr>image = picture e, fwidth = canvas_width st2, fheight = canvas_height st2\<rparr>]\<rparr>
               else st2)
            in
              if onProgress then
                (let st4 = st3\<lparr>reports := reports st3 @ [progress frameCount i]\<rparr>
                 in if raises e = Some AtProgress then Inl (AtProgress, st4) else Inr st4)
              else Inr st3)"

function sample_loop ::
  "(nat \<Rightarrow> iteration) \<Rightarrow> bool \<Rightarrow> real \<Rightarrow> nat \<Rightarrow> nat \<Rightarrow> sampler \<Rightarrow> (stage \<times> sampler) + sampler" where
  "sample_loop env onProgress interval frameCount i st =
     (if i < frameCount then
        (case iteration_body (env i) onProgress interval frameCount i st of
           Inl err \<Rightarrow> Inl err
         | Inr st' \<Rightarrow> sample_loop env onProgress interval frameCount (Suc i) st')
      else Inr st)"
  by pat_completeness auto
termination
  by (relation "measure (\<lambda>(env, onProgress, interval, frameCount, i, st). frameCount - i)") auto

declare sample_loop.simps [simp del]

datatype rejection = NoCanvasContext | LoadError | Thrown stage

datatype outcome = Resolved "frame list" int int | Rejected rejection

text \<open>The handler \<^verbatim>\<open>video.onloadeddata\<close>.\<close>

definition onloadeddata ::
  "jsnum \<Rightarrow> (nat \<Rightarrow> iteration) \<Rightarrow> nat \<Rightarrow> bool \<Rightarrow> sampler \<Rightarrow> outcome \<times> sampler" where
  "onloadeddata video_duration env frameCount onProgress st =
     (let interval = processDuration video_duration / real frameCount in
      case sample_loop env onProgress interval frameCount 0 st of
        Inr st' \<Rightarrow>
          (let finalWidth = canvas_width st'; finalHeight = canvas_height st'
           in (Resolved (frames st') finalWidth finalHeight, cleanup st'))
      | Inl (err, st') \<Rightarrow> (Rejected (Thrown err), cleanup st'))"

text \<open>The handler \<^verbatim>\<open>video.onerror\<close>.\<close>

definition onerror :: "sampler \<Rightarrow> outcome \<times> sampler" where
  "onerror st = (Rejected LoadError, cleanup st)"

text \<open>
  One call of \<^verbatim>\<open>extractFrames\<close>. The browser either has no 2D context for the canvas,
  or reports a load error, or reports the metadata (native width and height) and then
  the data (with the duration) of the video.
\<close>

datatype browser = NoContext | LoadFails | Loads nat nat jsnum "nat \<Rightarrow> iteration"

definition created :: sampler where
  "created = \<lparr>in_body = False, url_live = False, removed = 0, revoked = 0,
     canvas_width = 300, canvas_height = 150, seeks = [], waited = 0, frames = [],
     reports = []\<rparr>"

definition extractFrames :: "browser \<Rightarrow> nat \<Rightarrow> bool \<Rightarrow> outcome \<times> sampler" where
  "extractFrames b frameCount onProgress =
     (case b of
        NoContext \<Rightarrow> (Rejected NoCanvasContext, created)
      | LoadFails \<Rightarrow> onerror (created\<lparr>in_body := True, url_live := True\<rparr>)
      | Loads videoWidth videoHeight video_duration env \<Rightarrow>
          (let st = created\<lparr>in_body := True, url_live := True\<rparr>;
               (w, h) = onloadedmetadata videoWidth videoHeight
           in onloadeddata video_duration env frameCount onProgress
                (st\<lparr>canvas_width := w, canvas_height := h\<rparr>)))"

section \<open>Render tick\<close>


definition frameIndex :: "nat \<Rightarrow> real \<Rightarrow> int" where
  "frameIndex len t =
     (let normTilt = (t + 1) / 2
      in min (int len - 1) (max 0 \<lfloor>normTilt * real len\<rfloor>))"




section \<open>Auxiliary definitions\<close>

text \<open>The state in which the loop stopped, whether it finished or threw.\<close>

definition final :: "(stage \<times> sampler) + sampler \<Rightarrow> sampler" where
  "final r = (case r of Inl (err, st) \<Rightarrow> st | Inr st \<Rightarrow> st)"

text \<open>
  An iteration runs to its end when none of its calls throws. Without a progress
  callback nothing is called at the last stage, so nothing can throw there.
\<close>

definition completes :: "bool \<Rightarrow> iteration \<Rightarrow> bool" where
  "completes onProgress e = (if onProgress then raises e = None else raises e \<in> {None, Some AtProgress})"



text \<open>
  The common scaling factor in the words of the specification: 1 when both sides fit, and
  otherwise the factor that takes the larger side to 1024.
\<close>

definition spec_scale :: "nat \<Rightarrow> nat \<Rightarrow> real" where
  "spec_scale videoWidth videoHeight =
     (if videoWidth \<le> 1024 \<and> videoHeight \<le> 1024 then 1
      else 1024 / real (max videoWidth videoHeight))"

text \<open>The state of the run when the browser reports the data of the video.\<close>

definition loaded :: "nat \<Rightarrow> nat \<Rightarrow> sampler" where
  "loaded videoWidth videoHeight =
     created\<lparr>in_body := True, url_live := True,
       canvas_width := fst (onloadedmetadata videoWidth videoHeight),
       canvas_height := snd (onloadedmetadata videoWidth videoHeight)\<rparr>"

text \<open>
  The sampling window in the words of the specification: the reported duration if it is a
  finite number greater than 0, otherwise 3; then capped at 5.
\<close>

definition spec_window :: "jsnum \<Rightarrow> real" where
  "spec_window video_duration =
     min (case video_duration of Fin x \<Rightarrow> (if 0 < x then x else 3) | _ \<Rightarrow> 3) 5"


definition set_waited :: "nat \<Rightarrow> sampler \<Rightarrow> sampler" where
  "set_waited w st = st\<lparr>waited := w\<rparr>"

text \<open>
  Three browsers to run the sampler on: one that completes every seek after 10 ms and
  encodes every frame, one whose second encoding gives \<^verbatim>\<open>null\<close>, and one that never
  completes a seek and throws when the second frame is drawn.
\<close>

definition steady :: "nat \<Rightarrow> iteration" where
  "steady i = \<lparr>seeked_at = Some 10, picture = i, blob = True, raises = None\<rparr>"

definition one_null :: "nat \<Rightarrow> iteration" where
  "one_null i = \<lparr>seeked_at = Some 10, picture = i, blob = (i \<noteq> 1), raises = None\<rparr>"


section \<open>Lemmas: frame index, smoothing, progress\<close>





lemma frameIndex_mono: "t1 \<le> t2 \<Longrightarrow> frameIndex len t1 \<le> frameIndex len t2"
proof -
  assume h: "t1 \<le> t2"
  have "((t1 + 1) / 2) * real len \<le> ((t2 + 1) / 2) * real len"
    using h by (simp add: mult_right_mono)
  then have "\<lfloor>((t1 + 1) / 2) * real len\<rfloor> \<le> \<lfloor>((t2 + 1) / 2) * real len\<rfloor>"
    by (rule floor_mono)
  then show ?thesis unfolding frameIndex_def Let_def by linarith
qed











section \<open>Lemmas: output dimensions\<close>

lemma dims_small:
  "videoWidth \<le> 1024 \<Longrightarrow> videoHeight \<le> 1024 \<Longrightarrow>
     onloadedmetadata videoWidth videoHeight = (int videoWidth, int videoHeight)"
  by (simp add: onloadedmetadata_def maxDim_def)

lemma dims_wide:
  "1024 < videoWidth \<or> 1024 < videoHeight \<Longrightarrow> videoHeight < videoWidth \<Longrightarrow>
     onloadedmetadata videoWidth videoHeight =
       (1024, \<lfloor>real videoHeight * (1024 / real videoWidth)\<rfloor>)"
  by (simp add: onloadedmetadata_def maxDim_def)

lemma dims_tall:
  "1024 < videoWidth \<or> 1024 < videoHeight \<Longrightarrow> \<not> videoHeight < videoWidth \<Longrightarrow>
     onloadedmetadata videoWidth videoHeight =
       (\<lfloor>real videoWidth * (1024 / real videoHeight)\<rfloor>, 1024)"
  by (auto simp add: onloadedmetadata_def maxDim_def)

lemma dims_scale:
  assumes "0 < videoWidth" "0 < videoHeight"
  shows "onloadedmetadata videoWidth videoHeight =
           (\<lfloor>real videoWidth * spec_scale videoWidth videoHeight\<rfloor>,
            \<lfloor>real videoHeight * spec_scale videoWidth videoHeight\<rfloor>)"
proof (cases "videoWidth \<le> 1024 \<and> videoHeight \<le> 1024")
  case True
  then show ?thesis by (simp add: dims_small spec_scale_def)
next
  case False
  then have big: "1024 < videoWidth \<or> 1024 < videoHeight" by auto
  show ?thesis
  proof (cases "videoHeight < videoWidth")
    case True
    then have "max videoWidth videoHeight = videoWidth" by simp
    then show ?thesis using False True assms by (simp add: dims_wide[OF big True] spec_scale_def)
  next
    case f: False
    then have "max videoWidth videoHeight = videoHeight" by simp
    then show ?thesis using False f assms by (auto simp add: dims_tall[OF big f] spec_scale_def)
  qed
qed

lemma scaled_side:
  assumes "0 < a" "a \<le> b"
  shows "0 \<le> \<lfloor>real a * (1024 / real b)\<rfloor> \<and> \<lfloor>real a * (1024 / real b)\<rfloor> \<le> 1024 \<and>
         (0 < \<lfloor>real a * (1024 / real b)\<rfloor> \<longleftrightarrow> b \<le> 1024 * a)"
proof -
  have pos: "0 < real b" using assms by simp
  have up: "real a * (1024 / real b) \<le> 1024"
    using assms pos by (simp add: field_simps)
  have lo: "0 \<le> real a * (1024 / real b)" by simp
  have "0 < \<lfloor>real a * (1024 / real b)\<rfloor> \<longleftrightarrow> 1 \<le> real a * (1024 / real b)"
    by (simp add: less_floor_iff)
  also have "\<dots> \<longleftrightarrow> real b \<le> 1024 * real a"
    using pos by (simp add: field_simps)
  also have "\<dots> \<longleftrightarrow> b \<le> 1024 * a"
    by (metis of_nat_le_iff of_nat_mult of_nat_numeral)
  finally have p: "0 < \<lfloor>real a * (1024 / real b)\<rfloor> \<longleftrightarrow> b \<le> 1024 * a" .
  have "\<lfloor>real a * (1024 / real b)\<rfloor> \<le> 1024" using up by (simp add: floor_le_iff)
  moreover have "0 \<le> \<lfloor>real a * (1024 / real b)\<rfloor>" using lo by simp
  ultimately show ?thesis using p by simp
qed

section \<open>Lemmas: the sampling loop\<close>

lemma final_simps [simp]: "final (Inl (err, st)) = st" "final (Inr st) = st"
  by (simp_all add: final_def)



lemma body_fixed:
  "in_body (final (iteration_body e cb iv N i st)) = in_body st"
  "url_live (final (iteration_body e cb iv N i st)) = url_live st"
  "removed (final (iteration_body e cb iv N i st)) = removed st"
  "revoked (final (iteration_body e cb iv N i st)) = revoked st"
  "canvas_width (final (iteration_body e cb iv N i st)) = canvas_width st"
  "canvas_height (final (iteration_body e cb iv N i st)) = canvas_height st"
  by (simp_all add: iteration_body_def Let_def)

lemma body_Inr_iff: "(\<exists>st'. iteration_body e cb iv N i st = Inr st') \<longleftrightarrow> completes cb e"
proof (cases "raises e")
  case None
  then show ?thesis by (simp add: iteration_body_def Let_def completes_def)
next
  case (Some a)
  then show ?thesis
    by (cases a; cases cb) (simp_all add: iteration_body_def Let_def completes_def)
qed

lemma body_seeks:
  "seeks (final (iteration_body e cb iv N i st)) =
     seeks st @ (if raises e = Some AtSeek then [] else [real i * iv])"
  by (simp add: iteration_body_def Let_def)


lemma body_frames:
  "frames (final (iteration_body e cb iv N i st)) =
     frames st @
       (if blob e \<and> raises e \<notin> {Some AtSeek, Some AtDraw, Some AtEncode}
        then [\<lparr>image = picture e, fwidth = canvas_width st, fheight = canvas_height st\<rparr>]
        else [])"
  by (simp add: iteration_body_def Let_def)


lemma loop_done: "\<not> i < N \<Longrightarrow> sample_loop env cb iv N i st = Inr st"
  by (simp add: sample_loop.simps)

lemma loop_step_Inr:
  "i < N \<Longrightarrow> iteration_body (env i) cb iv N i st = Inr st' \<Longrightarrow>
     sample_loop env cb iv N i st = sample_loop env cb iv N (Suc i) st'"
  by (subst sample_loop.simps) simp

lemma loop_step_Inl:
  "i < N \<Longrightarrow> iteration_body (env i) cb iv N i st = Inl err \<Longrightarrow>
     sample_loop env cb iv N i st = Inl err"
  by (subst sample_loop.simps) simp

lemma loop_fixed:
  "in_body (final (sample_loop env cb iv N i st)) = in_body st \<and>
   url_live (final (sample_loop env cb iv N i st)) = url_live st \<and>
   removed (final (sample_loop env cb iv N i st)) = removed st \<and>
   revoked (final (sample_loop env cb iv N i st)) = revoked st \<and>
   canvas_width (final (sample_loop env cb iv N i st)) = canvas_width st \<and>
   canvas_height (final (sample_loop env cb iv N i st)) = canvas_height st"
proof (induction env cb iv N i st rule: sample_loop.induct)
  case (1 env cb iv N i st)
  show ?case
  proof (cases "i < N")
    case False
    then show ?thesis by (simp add: loop_done)
  next
    case True
    show ?thesis
    proof (cases "iteration_body (env i) cb iv N i st")
      case (Inl err)
      then show ?thesis
        using True body_fixed[of "env i" cb iv N i st] by (simp add: loop_step_Inl)
    next
      case (Inr st')
      then show ?thesis
        using True "1.IH"[OF True Inr] body_fixed[of "env i" cb iv N i st]
        by (simp add: loop_step_Inr)
    qed
  qed
qed

lemma body_Inr_completes: "iteration_body e cb iv N i st = Inr st' \<Longrightarrow> completes cb e"
  using body_Inr_iff by blast

lemma completes_raises:
  "completes cb e \<Longrightarrow> raises e \<notin> {Some AtSeek, Some AtDraw, Some AtEncode}"
  "completes cb e \<Longrightarrow> raises e \<noteq> Some AtSeek"
  by (auto simp: completes_def split: if_splits)

lemma loop_Inr_iff:
  "(\<exists>st'. sample_loop env cb iv N i st = Inr st') \<longleftrightarrow> (\<forall>j. i \<le> j \<and> j < N \<longrightarrow> completes cb (env j))"
proof (induction env cb iv N i st rule: sample_loop.induct)
  case (1 env cb iv N i st)
  show ?case
  proof (cases "i < N")
    case False
    then show ?thesis by (auto simp: loop_done)
  next
    case True
    show ?thesis
    proof (cases "iteration_body (env i) cb iv N i st")
      case (Inl err)
      then have "\<not> completes cb (env i)" using body_Inr_iff[of "env i" cb iv N i st] by simp
      then show ?thesis using True Inl by (auto simp: loop_step_Inl)
    next
      case (Inr st')
      have c: "completes cb (env i)" using Inr by (rule body_Inr_completes)
      have "(\<forall>j. i \<le> j \<and> j < N \<longrightarrow> completes cb (env j)) \<longleftrightarrow>
            (\<forall>j. Suc i \<le> j \<and> j < N \<longrightarrow> completes cb (env j))"
      proof (intro iffI allI impI)
        fix j assume "\<forall>j. i \<le> j \<and> j < N \<longrightarrow> completes cb (env j)" "Suc i \<le> j \<and> j < N"
        then show "completes cb (env j)" by simp
      next
        fix j assume a: "\<forall>j. Suc i \<le> j \<and> j < N \<longrightarrow> completes cb (env j)" "i \<le> j \<and> j < N"
        show "completes cb (env j)"
        proof (cases "j = i")
          case True
          then show ?thesis using c by simp
        next
          case False
          then have "Suc i \<le> j" using a(2) by simp
          then show ?thesis using a by simp
        qed
      qed
      then show ?thesis
        using True "1.IH"[OF True Inr] by (simp add: loop_step_Inr[where env=env, OF True Inr])
    qed
  qed
qed

lemma loop_seeks:
  "\<exists>k. i \<le> k \<and> k \<le> max i N \<and>
       seeks (final (sample_loop env cb iv N i st)) = seeks st @ map (\<lambda>j. real j * iv) [i..<k] \<and>
       ((\<exists>st'. sample_loop env cb iv N i st = Inr st') \<longrightarrow> k = max i N)"
proof (induction env cb iv N i st rule: sample_loop.induct)
  case (1 env cb iv N i st)
  show ?case
  proof (cases "i < N")
    case False
    then show ?thesis by (simp add: loop_done)
  next
    case True
    show ?thesis
    proof (cases "iteration_body (env i) cb iv N i st")
      case (Inl err)
      have "seeks (final (Inl err)) = seeks st \<or> seeks (final (Inl err)) = seeks st @ [real i * iv]"
        using body_seeks[of "env i" cb iv N i st] Inl by (simp split: if_splits)
      then have d: "seeks (final (Inl err)) = seeks st @ map (\<lambda>j. real j * iv) [i..<i] \<or>
                 seeks (final (Inl err)) = seeks st @ map (\<lambda>j. real j * iv) [i..<Suc i]"
        by simp
      have L: "sample_loop env cb iv N i st = Inl err"
        by (rule loop_step_Inl[where env=env, OF True Inl])
      from d show ?thesis
      proof
        assume "seeks (final (Inl err)) = seeks st @ map (\<lambda>j. real j * iv) [i..<i]"
        then show ?thesis using True L by (intro exI[of _ i]) simp
      next
        assume "seeks (final (Inl err)) = seeks st @ map (\<lambda>j. real j * iv) [i..<Suc i]"
        then show ?thesis using True L by (intro exI[of _ "Suc i"]) simp
      qed
    next
      case (Inr st')
      have c: "completes cb (env i)" using Inr by (rule body_Inr_completes)
      have s: "seeks st' = seeks st @ [real i * iv]"
        using body_seeks[of "env i" cb iv N i st] completes_raises(2)[OF c] Inr by simp
      obtain k where k: "Suc i \<le> k" "k \<le> max (Suc i) N"
        "seeks (final (sample_loop env cb iv N (Suc i) st')) = seeks st' @ map (\<lambda>j. real j * iv) [Suc i..<k]"
        "(\<exists>st''. sample_loop env cb iv N (Suc i) st' = Inr st'') \<longrightarrow> k = max (Suc i) N"
        using "1.IH"[OF True Inr] by blast
      have u: "[i..<k] = i # [Suc i..<k]" using k(1) by (simp add: upt_conv_Cons)
      have m: "max (Suc i) N = max i N" using True by simp
      show ?thesis
        unfolding loop_step_Inr[where env=env, OF True Inr]
        using k s u m by (intro exI[of _ k]) simp
    qed
  qed
qed

lemma loop_appends:
  fixes f :: "sampler \<Rightarrow> 'a list" and g :: "nat \<Rightarrow> 'a list" and I :: "sampler \<Rightarrow> bool"
  assumes inv: "\<And>j s. I s \<Longrightarrow> I (final (iteration_body (env j) cb iv N j s))"
    and part: "\<And>j s. I s \<Longrightarrow>
       f (final (iteration_body (env j) cb iv N j s)) = f s \<or>
       f (final (iteration_body (env j) cb iv N j s)) = f s @ g j"
    and full: "\<And>j s s'. I s \<Longrightarrow> iteration_body (env j) cb iv N j s = Inr s' \<Longrightarrow> f s' = f s @ g j"
    and start: "I st"
  shows "\<exists>k. i \<le> k \<and> k \<le> max i N \<and>
           f (final (sample_loop env cb iv N i st)) = f st @ concat (map g [i..<k]) \<and>
           ((\<exists>st'. sample_loop env cb iv N i st = Inr st') \<longrightarrow> k = max i N)"
  using inv part full start
proof (induction env cb iv N i st rule: sample_loop.induct)
  case (1 env cb iv N i st)
  note inv = "1.prems"(1) and part = "1.prems"(2) and full = "1.prems"(3) and start = "1.prems"(4)
  show ?case
  proof (cases "i < N")
    case False
    then show ?thesis by (intro exI[of _ i]) (simp add: loop_done)
  next
    case True
    show ?thesis
    proof (cases "iteration_body (env i) cb iv N i st")
      case (Inl err)
      have L: "sample_loop env cb iv N i st = Inl err"
        by (rule loop_step_Inl[where env=env, OF True Inl])
      from part[OF start, of i]
      have "f (final (Inl err)) = f st \<or> f (final (Inl err)) = f st @ g i"
        unfolding Inl .
      then show ?thesis
      proof
        assume "f (final (Inl err)) = f st"
        then show ?thesis using True L by (intro exI[of _ i]) simp
      next
        assume "f (final (Inl err)) = f st @ g i"
        then show ?thesis using True L by (intro exI[of _ "Suc i"]) simp
      qed
    next
      case (Inr st')
      have I': "I st'" using inv[OF start, of i] Inr by simp
      have s: "f st' = f st @ g i" using full[OF start Inr] .
      obtain k where k: "Suc i \<le> k" "k \<le> max (Suc i) N"
        "f (final (sample_loop env cb iv N (Suc i) st')) = f st' @ concat (map g [Suc i..<k])"
        "(\<exists>st''. sample_loop env cb iv N (Suc i) st' = Inr st'') \<longrightarrow> k = max (Suc i) N"
        using "1.IH"[OF True Inr inv part full I'] by blast
      have u: "[i..<k] = i # [Suc i..<k]" using k(1) by (simp add: upt_conv_Cons)
      have m: "max (Suc i) N = max i N" using True by simp
      show ?thesis
        unfolding loop_step_Inr[where env=env, OF True Inr]
        using k s u m by (intro exI[of _ k]) simp
    qed
  qed
qed

lemma extractFrames_Loads:
  "extractFrames (Loads videoWidth videoHeight d env) N cb =
     (case sample_loop env cb (processDuration d / real N) N 0 (loaded videoWidth videoHeight) of
        Inr s \<Rightarrow> (Resolved (frames s) (canvas_width s) (canvas_height s), cleanup s)
      | Inl (err, s) \<Rightarrow> (Rejected (Thrown err), cleanup s))"
  by (simp add: extractFrames_def onloadeddata_def loaded_def Let_def split: prod.splits sum.splits)

lemma extractFrames_Loads_state:
  "extractFrames (Loads videoWidth videoHeight d env) N cb = (out, st) \<Longrightarrow>
     st = cleanup (final (sample_loop env cb (processDuration d / real N) N 0 (loaded videoWidth videoHeight)))"
  by (auto simp: extractFrames_Loads split: sum.splits)

lemma extractFrames_Loads_Resolved:
  "extractFrames (Loads videoWidth videoHeight d env) N cb = (out, st) \<Longrightarrow>
     (\<exists>fs w h. out = Resolved fs w h) \<longleftrightarrow>
     (\<exists>s. sample_loop env cb (processDuration d / real N) N 0 (loaded videoWidth videoHeight) = Inr s)"
  by (auto simp: extractFrames_Loads split: sum.splits)

lemma cleanup_keeps [simp]:
  "seeks (cleanup s) = seeks s" "frames (cleanup s) = frames s" "reports (cleanup s) = reports s"
  "waited (cleanup s) = waited s" "canvas_width (cleanup s) = canvas_width s"
  "canvas_height (cleanup s) = canvas_height s"
  by (simp_all add: cleanup_def Let_def)

lemma loaded_fields [simp]:
  "seeks (loaded vw vh) = []" "frames (loaded vw vh) = []" "reports (loaded vw vh) = []"
  "waited (loaded vw vh) = 0" "in_body (loaded vw vh)" "url_live (loaded vw vh)"
  "removed (loaded vw vh) = 0" "revoked (loaded vw vh) = 0"
  "canvas_width (loaded vw vh) = fst (onloadedmetadata vw vh)"
  "canvas_height (loaded vw vh) = snd (onloadedmetadata vw vh)"
  by (simp_all add: loaded_def created_def)

lemma processDuration_spec: "processDuration d = spec_window d"
  by (cases d) (simp_all add: processDuration_def spec_window_def)

lemma processDuration_range: "0 < processDuration d \<and> processDuration d \<le> 5"
  by (cases d) (simp_all add: processDuration_def)

lemma no_raise_completes: "raises e = None \<Longrightarrow> completes cb e"
  by (simp add: completes_def)

lemma seek_time_below:
  assumes "i < N" "0 < w"
  shows "0 \<le> real i * (w / real N) \<and> real i * (w / real N) < w"
proof -
  have n: "0 < real N" using assms(1) by simp
  have "real i * (w / real N) = w * (real i / real N)" by simp
  moreover have "real i / real N < 1" using assms(1) n by simp
  ultimately have "real i * (w / real N) < w * 1"
    using assms(2) by (simp only: mult_strict_left_mono)
  moreover have "0 \<le> real i * (w / real N)" using assms(2) by simp
  ultimately show ?thesis by simp
qed

lemma upt_0_2: "[0..<2] = [0, 1]"
  by (simp add: upt_rec)

lemma upt_0_3: "[0..<3] = [0, 1, 2]"
  by (simp add: upt_rec)


lemma loop_frames:
  "\<exists>k. i \<le> k \<and> k \<le> max i N \<and>
       frames (final (sample_loop env cb iv N i st)) =
         frames st @ map (\<lambda>j. \<lparr>image = picture (env j), fwidth = canvas_width st,
                                fheight = canvas_height st\<rparr>)
                      (filter (\<lambda>j. blob (env j)) [i..<k]) \<and>
       ((\<exists>st'. sample_loop env cb iv N i st = Inr st') \<longrightarrow> k = max i N)"
proof -
  let ?mk = "\<lambda>j. \<lparr>image = picture (env j), fwidth = canvas_width st, fheight = canvas_height st\<rparr>"
  let ?g = "\<lambda>j. if blob (env j) then [?mk j] else []"
  have c: "concat (map ?g xs) = map ?mk (filter (\<lambda>j. blob (env j)) xs)" for xs
    by (induction xs) simp_all
  have "\<exists>k. i \<le> k \<and> k \<le> max i N \<and>
       frames (final (sample_loop env cb iv N i st)) = frames st @ concat (map ?g [i..<k]) \<and>
       ((\<exists>st'. sample_loop env cb iv N i st = Inr st') \<longrightarrow> k = max i N)"
  proof (rule loop_appends[where I = "\<lambda>s. canvas_width s = canvas_width st \<and> canvas_height s = canvas_height st"])
    fix j and s :: sampler
    assume "canvas_width s = canvas_width st \<and> canvas_height s = canvas_height st"
    then show "canvas_width (final (iteration_body (env j) cb iv N j s)) = canvas_width st \<and>
               canvas_height (final (iteration_body (env j) cb iv N j s)) = canvas_height st"
      by (simp add: body_fixed)
  next
    fix j and s :: sampler
    assume "canvas_width s = canvas_width st \<and> canvas_height s = canvas_height st"
    then show "frames (final (iteration_body (env j) cb iv N j s)) = frames s \<or>
          frames (final (iteration_body (env j) cb iv N j s)) = frames s @ ?g j"
      by (simp add: body_frames)
  next
    fix j and s s' :: sampler
    assume "canvas_width s = canvas_width st \<and> canvas_height s = canvas_height st"
      and "iteration_body (env j) cb iv N j s = Inr s'"
    then show "frames s' = frames s @ ?g j"
      using body_frames[of "env j" cb iv N j s] completes_raises(1)[OF body_Inr_completes]
      by simp
  qed simp
  then show ?thesis by (simp only: c)
qed









lemma cleanup_set_waited: "cleanup (set_waited w s) = set_waited w (cleanup s)"
  by (simp add: cleanup_def set_waited_def Let_def)


lemmas run_defs = extractFrames_def onloadeddata_def onerror_def onloadedmetadata_def maxDim_def
  created_def sample_loop.simps iteration_body_def await_seek_def seekTimeout_def cleanup_def
  progress_def js_round_def processDuration_def Let_def

section \<open>Claims\<close>



text \<open>
  C3. The mapping from tilt to frame index is monotonic: for a frame count of at least 1
  and \<open>t1 < t2\<close> in \<open>[-1, 1]\<close>, the index for \<open>t1\<close> is at most the index for \<open>t2\<close>.
\<close>

theorem frame_index_monotonic:
  assumes "1 \<le> frameCount" and "- 1 \<le> t1" and "t1 < t2" and "t2 \<le> 1"
  shows "frameIndex frameCount t1 \<le> frameIndex frameCount t2"
  using assms(3) by (intro frameIndex_mono) simp

theorem frame_index_monotonic_witness:
  "(1::nat) \<le> 45 \<and> frameIndex 45 (- 1 / 2) = 11 \<and> frameIndex 45 (1 / 2) = 33 \<and>
   frameIndex 45 (- 1 / 2) \<le> frameIndex 45 (1 / 2)"
  using frame_index_monotonic [of 45 "- 1 / 2" "1 / 2"]
  by (simp add: frameIndex_def)






text \<open>
  C4, amended. For positive native dimensions the output equals the native dimensions
  when both are at most 1024; otherwise the larger output side is 1024. In both cases
  width and height are the floors of the native sides times one common factor, so they
  match the aspect ratio of the source within rounding, and both are integers between 0
  and 1024. They are both positive exactly when the larger native side is at most 1024
  times the smaller one.
\<close>

theorem output_dimensions:
  assumes "0 < videoWidth" and "0 < videoHeight"
    and "onloadedmetadata videoWidth videoHeight = (w, h)"
  shows "(videoWidth \<le> 1024 \<and> videoHeight \<le> 1024 \<longrightarrow> w = int videoWidth \<and> h = int videoHeight) \<and>
         (1024 < videoWidth \<or> 1024 < videoHeight \<longrightarrow> max w h = 1024) \<and>
         w = \<lfloor>real videoWidth * spec_scale videoWidth videoHeight\<rfloor> \<and>
         h = \<lfloor>real videoHeight * spec_scale videoWidth videoHeight\<rfloor> \<and>
         w \<le> 1024 \<and> h \<le> 1024 \<and> 0 \<le> w \<and> 0 \<le> h \<and>
         (0 < w \<and> 0 < h \<longleftrightarrow> max videoWidth videoHeight \<le> 1024 * min videoWidth videoHeight)"
proof -
  have fl: "w = \<lfloor>real videoWidth * spec_scale videoWidth videoHeight\<rfloor>"
           "h = \<lfloor>real videoHeight * spec_scale videoWidth videoHeight\<rfloor>"
    using dims_scale[OF assms(1,2)] assms(3) by simp_all
  have small: "videoWidth \<le> 1024 \<and> videoHeight \<le> 1024 \<longrightarrow> w = int videoWidth \<and> h = int videoHeight"
    using dims_small[of videoWidth videoHeight] assms(3) by simp
  have rest: "(1024 < videoWidth \<or> 1024 < videoHeight \<longrightarrow> max w h = 1024) \<and>
         w \<le> 1024 \<and> h \<le> 1024 \<and> 0 \<le> w \<and> 0 \<le> h \<and>
         (0 < w \<and> 0 < h \<longleftrightarrow> max videoWidth videoHeight \<le> 1024 * min videoWidth videoHeight)"
  proof (cases "videoWidth \<le> 1024 \<and> videoHeight \<le> 1024")
    case True
    then have "w = int videoWidth" "h = int videoHeight"
      using small by simp_all
    moreover have "max videoWidth videoHeight \<le> 1024 * min videoWidth videoHeight"
      using True assms(1,2) by (simp add: min_def max_def)
    ultimately show ?thesis using True assms(1,2) by simp
  next
    case False
    then have big: "1024 < videoWidth \<or> 1024 < videoHeight" by auto
    show ?thesis
    proof (cases "videoHeight < videoWidth")
      case True
      have w: "w = 1024" and h: "h = \<lfloor>real videoHeight * (1024 / real videoWidth)\<rfloor>"
        using dims_wide[OF big True] assms(3) by simp_all
      have "videoHeight \<le> videoWidth" using True by simp
      from scaled_side[OF assms(2) this]
      have "0 \<le> h \<and> h \<le> 1024 \<and> (0 < h \<longleftrightarrow> videoWidth \<le> 1024 * videoHeight)"
        unfolding h .
      then show ?thesis using w True by (simp add: min_def max_def)
    next
      case f: False
      have h: "h = 1024" and w: "w = \<lfloor>real videoWidth * (1024 / real videoHeight)\<rfloor>"
        using dims_tall[OF big f] assms(3) by simp_all
      have "videoWidth \<le> videoHeight" using f by simp
      from scaled_side[OF assms(1) this]
      have "0 \<le> w \<and> w \<le> 1024 \<and> (0 < w \<longleftrightarrow> videoHeight \<le> 1024 * videoWidth)"
        unfolding w .
      then show ?thesis using h f by (simp add: min_def max_def)
    qed
  qed
  show ?thesis using small rest fl by blast
qed

theorem output_dimensions_witness:
  "(0::nat) < 1920 \<and> (0::nat) < 1080 \<and> onloadedmetadata 1920 1080 = (1024, 576) \<and>
   max (1024::int) 576 = 1024 \<and> spec_scale 1920 1080 = 8 / 15 \<and>
   (max (1920::nat) 1080 \<le> 1024 * min 1920 1080)"
  using output_dimensions [of 1920 1080 1024 576]
  by (simp add: onloadedmetadata_def maxDim_def spec_scale_def)

text \<open>
  As first stated, C4 has both output sides positive. A source of 2048 by 1 pixels has
  positive dimensions and gets an output height of 0.
\<close>

theorem output_height_zero:
  "(0::nat) < 2048 \<and> (0::nat) < 1 \<and> onloadedmetadata 2048 1 = (1024, 0) \<and>
   \<not> (0 < snd (onloadedmetadata 2048 1))"
  by (simp add: onloadedmetadata_def maxDim_def)

text \<open>
  C1. When the video loads, the sampling window is the reported duration if that is a
  finite number greater than 0, otherwise 3, and then capped at 5. For a frame count
  \<open>N\<close> of at least 1 the seeks are requested, in order, at the times \<open>i * (window / N)\<close>:
  all \<open>N\<close> of them when nothing throws, and the first few otherwise. For a finite duration
  \<open>D\<close> with \<open>0 < D \<le> 5\<close> the \<open>k\<close>-th time is \<open>k * (D / N)\<close>, and every requested time is
  below the window.
\<close>

theorem sampling_window_and_seeks:
  assumes "1 \<le> N" and "extractFrames (Loads videoWidth videoHeight d env) N cb = (out, st)"
  shows "processDuration d = spec_window d \<and>
         (\<forall>D. d = Fin D \<and> 0 < D \<and> D \<le> 5 \<longrightarrow> processDuration d = D) \<and>
         (\<exists>k\<le>N. seeks st = map (\<lambda>i. real i * (processDuration d / real N)) [0..<k] \<and>
                 ((\<forall>i<N. raises (env i) = None) \<longrightarrow> k = N)) \<and>
         (\<forall>D k. d = Fin D \<and> 0 < D \<and> D \<le> 5 \<and> k < length (seeks st) \<longrightarrow>
                 seeks st ! k = real k * (D / real N)) \<and>
         (\<forall>t\<in>set (seeks st). 0 \<le> t \<and> t < processDuration d)"
proof -
  let ?iv = "processDuration d / real N"
  let ?r = "sample_loop env cb ?iv N 0 (loaded videoWidth videoHeight)"
  have st: "st = cleanup (final ?r)" using assms(2) by (rule extractFrames_Loads_state)
  obtain k where k: "k \<le> max 0 N"
    "seeks (final ?r) = seeks (loaded videoWidth videoHeight) @ map (\<lambda>j. real j * ?iv) [0..<k]"
    "(\<exists>st'. ?r = Inr st') \<longrightarrow> k = max 0 N"
    using loop_seeks[of 0 N env cb ?iv "loaded videoWidth videoHeight"] by blast
  have sk: "seeks st = map (\<lambda>i. real i * ?iv) [0..<k]" using k(2) st by simp
  have kN: "k \<le> N" using k(1) by simp
  have full: "(\<forall>i<N. raises (env i) = None) \<longrightarrow> k = N"
  proof
    assume "\<forall>i<N. raises (env i) = None"
    then have "\<forall>j. 0 \<le> j \<and> j < N \<longrightarrow> completes cb (env j)" by (simp add: no_raise_completes)
    then have "\<exists>st'. ?r = Inr st'" by (simp only: loop_Inr_iff)
    then show "k = N" using k(3) by simp
  qed
  have a: "\<forall>D. d = Fin D \<and> 0 < D \<and> D \<le> 5 \<longrightarrow> processDuration d = D"
    by (auto simp: processDuration_def)
  have b: "\<forall>D j. d = Fin D \<and> 0 < D \<and> D \<le> 5 \<and> j < length (seeks st) \<longrightarrow>
                 seeks st ! j = real j * (D / real N)"
    using a by (auto simp: sk)
  have c: "\<forall>t\<in>set (seeks st). 0 \<le> t \<and> t < processDuration d"
  proof
    fix t assume "t \<in> set (seeks st)"
    then obtain i where i: "i < k" "t = real i * ?iv" by (auto simp: sk)
    have "i < N" using i(1) kN by simp
    from seek_time_below[OF this, of "processDuration d"] processDuration_range[of d]
    show "0 \<le> t \<and> t < processDuration d" unfolding i(2) by blast
  qed
  show ?thesis using processDuration_spec[of d] a sk kN full b c by blast
qed

theorem sampling_window_and_seeks_witness:
  "(1::nat) \<le> 2 \<and> processDuration (Fin 2) = 2 \<and>
   seeks (snd (extractFrames (Loads 640 480 (Fin 2) steady) 2 True)) = [0, 1]"
  using sampling_window_and_seeks [of 2 640 480 "Fin 2" steady True
      "fst (extractFrames (Loads 640 480 (Fin 2) steady) 2 True)"
      "snd (extractFrames (Loads 640 480 (Fin 2) steady) 2 True)"]
  by (simp add: steady_def spec_window_def upt_0_2)

text \<open>
  C5. For a frame count \<open>N\<close> of at least 1, a run in which nothing throws resolves with one
  frame for each iteration whose encoding gave a blob, in order; an iteration without a
  blob adds nothing and does not stop the run. Every resolved run has at most \<open>N\<close> frames,
  all of the width and height of the canvas, which are the width and height returned.
\<close>

theorem frames_of_run:
  assumes "1 \<le> N" and "extractFrames (Loads videoWidth videoHeight d env) N cb = (out, st)"
  shows "((\<forall>i<N. raises (env i) = None) \<longrightarrow>
            out = Resolved
              (map (\<lambda>i. \<lparr>image = picture (env i), fwidth = fst (onloadedmetadata videoWidth videoHeight),
                          fheight = snd (onloadedmetadata videoWidth videoHeight)\<rparr>)
                 (filter (\<lambda>i. blob (env i)) [0..<N]))
              (fst (onloadedmetadata videoWidth videoHeight))
              (snd (onloadedmetadata videoWidth videoHeight))) \<and>
         (\<forall>fs w h. out = Resolved fs w h \<longrightarrow>
            length fs \<le> N \<and> length fs = length (filter (\<lambda>i. blob (env i)) [0..<N]) \<and>
            (w, h) = onloadedmetadata videoWidth videoHeight \<and>
            (\<forall>f\<in>set fs. fwidth f = w \<and> fheight f = h))"
proof -
  let ?iv = "processDuration d / real N"
  let ?st0 = "loaded videoWidth videoHeight"
  let ?r = "sample_loop env cb ?iv N 0 ?st0"
  let ?mk = "\<lambda>i. \<lparr>image = picture (env i), fwidth = fst (onloadedmetadata videoWidth videoHeight),
                          fheight = snd (onloadedmetadata videoWidth videoHeight)\<rparr>"
  obtain k where k: "k \<le> max 0 N"
    "frames (final ?r) = frames ?st0 @ map (\<lambda>j. \<lparr>image = picture (env j), fwidth = canvas_width ?st0,
        fheight = canvas_height ?st0\<rparr>) (filter (\<lambda>j. blob (env j)) [0..<k])"
    "(\<exists>st'. ?r = Inr st') \<longrightarrow> k = max 0 N"
    using loop_frames[of 0 N env cb ?iv ?st0] by blast
  have cw: "canvas_width (final ?r) = fst (onloadedmetadata videoWidth videoHeight)"
           "canvas_height (final ?r) = snd (onloadedmetadata videoWidth videoHeight)"
    using loop_fixed[of env cb ?iv N 0 ?st0] by simp_all
  have res: "out = Resolved (map ?mk (filter (\<lambda>i. blob (env i)) [0..<N]))
              (fst (onloadedmetadata videoWidth videoHeight))
              (snd (onloadedmetadata videoWidth videoHeight))" if "?r = Inr s" for s
  proof -
    have "k = N" using k(3) that by simp
    then have "frames s = map ?mk (filter (\<lambda>i. blob (env i)) [0..<N])"
      using k(2) that by simp
    moreover have "canvas_width s = fst (onloadedmetadata videoWidth videoHeight)"
      "canvas_height s = snd (onloadedmetadata videoWidth videoHeight)"
      using cw that by simp_all
    ultimately show ?thesis using assms(2) that by (simp add: extractFrames_Loads)
  qed
  have a: "(\<forall>i<N. raises (env i) = None) \<longrightarrow>
            out = Resolved (map ?mk (filter (\<lambda>i. blob (env i)) [0..<N]))
              (fst (onloadedmetadata videoWidth videoHeight))
              (snd (onloadedmetadata videoWidth videoHeight))"
  proof
    assume "\<forall>i<N. raises (env i) = None"
    then have "\<forall>j. 0 \<le> j \<and> j < N \<longrightarrow> completes cb (env j)" by (simp add: no_raise_completes)
    then have "\<exists>st'. ?r = Inr st'" by (simp only: loop_Inr_iff)
    then show "out = Resolved (map ?mk (filter (\<lambda>i. blob (env i)) [0..<N]))
              (fst (onloadedmetadata videoWidth videoHeight))
              (snd (onloadedmetadata videoWidth videoHeight))" using res by blast
  qed
  have b: "\<forall>fs w h. out = Resolved fs w h \<longrightarrow>
            length fs \<le> N \<and> length fs = length (filter (\<lambda>i. blob (env i)) [0..<N]) \<and>
            (w, h) = onloadedmetadata videoWidth videoHeight \<and>
            (\<forall>f\<in>set fs. fwidth f = w \<and> fheight f = h)"
  proof (intro allI impI)
    fix fs w h assume o: "out = Resolved fs w h"
    then have "\<exists>s. ?r = Inr s" using extractFrames_Loads_Resolved[OF assms(2)] by blast
    then obtain s where "?r = Inr s" by blast
    from res[OF this] o have fs: "fs = map ?mk (filter (\<lambda>i. blob (env i)) [0..<N])"
      and w: "w = fst (onloadedmetadata videoWidth videoHeight)"
      and h: "h = snd (onloadedmetadata videoWidth videoHeight)" by simp_all
    have "length (filter (\<lambda>i. blob (env i)) [0..<N]) \<le> length [0..<N]" by (rule length_filter_le)
    then have "length fs \<le> N" by (simp add: fs)
    moreover have "\<forall>f\<in>set fs. fwidth f = w \<and> fheight f = h" by (auto simp: fs w h)
    ultimately show "length fs \<le> N \<and> length fs = length (filter (\<lambda>i. blob (env i)) [0..<N]) \<and>
            (w, h) = onloadedmetadata videoWidth videoHeight \<and>
            (\<forall>f\<in>set fs. fwidth f = w \<and> fheight f = h)"
      by (simp add: fs w h)
  qed
  show ?thesis using a b by blast
qed

theorem frames_of_run_witness:
  "(1::nat) \<le> 3 \<and>
   extractFrames (Loads 640 480 (Fin 2) one_null) 3 True =
     (Resolved [\<lparr>image = 0, fwidth = 640, fheight = 480\<rparr>, \<lparr>image = 2, fwidth = 640, fheight = 480\<rparr>] 640 480,
      snd (extractFrames (Loads 640 480 (Fin 2) one_null) 3 True)) \<and>
   length [\<lparr>image = 0, fwidth = 640, fheight = 480\<rparr>, \<lparr>image = 2, fwidth = 640, fheight = 480\<rparr>] \<le> (3::nat)"
proof -
  have n: "(1::nat) \<le> 3" by simp
  have ev: "fst (extractFrames (Loads 640 480 (Fin 2) one_null) 3 True) =
     Resolved [\<lparr>image = 0, fwidth = 640, fheight = 480\<rparr>, \<lparr>image = 2, fwidth = 640, fheight = 480\<rparr>] 640 480"
    by (simp add: run_defs one_null_def)
  then have run: "extractFrames (Loads 640 480 (Fin 2) one_null) 3 True =
     (Resolved [\<lparr>image = 0, fwidth = 640, fheight = 480\<rparr>, \<lparr>image = 2, fwidth = 640, fheight = 480\<rparr>] 640 480,
      snd (extractFrames (Loads 640 480 (Fin 2) one_null) 3 True))"
    by (metis prod.collapse)
  from frames_of_run [OF n run]
  have "length [\<lparr>image = 0, fwidth = 640, fheight = 480\<rparr>, \<lparr>image = 2, fwidth = 640, fheight = 480\<rparr>] \<le> (3::nat)"
    by blast
  with n run show ?thesis by blast
qed







end
